theory Spec2Isabelle
  imports Complex_Main
begin

section \<open>The runtime's Map\<close>

text \<open>
  \<open>leakyCache\<close> is a JavaScript \<open>Map\<close>: keys are unique and iteration follows insertion
  order. It is modelled as an association list, oldest entry first. Only the operations
  the sources call are modelled: \<open>set\<close>, \<open>delete\<close>, \<open>clear\<close>, \<open>size\<close>, \<open>keys\<close>, \<open>entries\<close>,
  and \<open>get\<close> as the observer of what is stored.
\<close>

type_synonym ('k, 'v) jsmap = "('k \<times> 'v) list"

definition wf_map :: "('k, 'v) jsmap \<Rightarrow> bool" where
  "wf_map m = distinct (map fst m)"

definition Map_size :: "('k, 'v) jsmap \<Rightarrow> nat" where
  "Map_size m = length m"

text \<open>\<open>set\<close> on a key that is present replaces the value and keeps the entry's position;
  on a new key it appends at the back.\<close>

fun Map_set :: "'k \<Rightarrow> 'v \<Rightarrow> ('k, 'v) jsmap \<Rightarrow> ('k, 'v) jsmap" where
  "Map_set k v [] = [(k, v)]"
| "Map_set k v ((k', v') # m) =
     (if k' = k then (k, v) # m else (k', v') # Map_set k v m)"

definition Map_delete :: "'k \<Rightarrow> ('k, 'v) jsmap \<Rightarrow> ('k, 'v) jsmap" where
  "Map_delete k m = filter (\<lambda>p. fst p \<noteq> k) m"

definition Map_get :: "'k \<Rightarrow> ('k, 'v) jsmap \<Rightarrow> 'v option" where
  "Map_get k m = map_of m k"

definition Map_clear :: "('k, 'v) jsmap \<Rightarrow> ('k, 'v) jsmap" where
  "Map_clear m = []"

definition Map_keys :: "('k, 'v) jsmap \<Rightarrow> 'k list" where
  "Map_keys m = map fst m"

text \<open>\<open>iterator.next().value\<close>: the first element, or \<open>undefined\<close> (here \<open>None\<close>) when the
  iterator is exhausted.\<close>

definition next_value :: "'a list \<Rightarrow> 'a option" where
  "next_value xs = (case xs of [] \<Rightarrow> None | x # _ \<Rightarrow> Some x)"

section \<open>memory-leak-example.md: the cache limit\<close>

text \<open>
  \<^verbatim>\<open>
  const MAX_CACHE_SIZE = 1000;
  function addToCache(key, value) {
      if (leakyCache.size >= MAX_CACHE_SIZE) {
          const oldestKey = leakyCache.keys().next().value;
          leakyCache.delete(oldestKey);
      }
      leakyCache.set(key, value);
  }
  \<close>
  The limit is the first argument, so that the function can be studied at any capacity;
  \<open>MAX_CACHE_SIZE\<close> is the value the document fixes. Keys are values of type \<open>'k\<close>, none of
  which is \<open>undefined\<close>, so \<open>delete(undefined)\<close> on an empty Map removes nothing.
\<close>

definition MAX_CACHE_SIZE :: nat where
  "MAX_CACHE_SIZE = 1000"

definition addToCache :: "nat \<Rightarrow> 'k \<Rightarrow> 'v \<Rightarrow> ('k, 'v) jsmap \<Rightarrow> ('k, 'v) jsmap" where
  "addToCache cap key v leakyCache =
     (let leakyCache' =
        (if Map_size leakyCache \<ge> cap
         then (case next_value (Map_keys leakyCache) of
                 None \<Rightarrow> leakyCache
               | Some oldestKey \<Rightarrow> Map_delete oldestKey leakyCache)
         else leakyCache)
      in Map_set key v leakyCache')"

text \<open>A sequence of calls, with the cache after each of them.\<close>

fun run_puts :: "nat \<Rightarrow> ('k \<times> 'v) list \<Rightarrow> ('k, 'v) jsmap \<Rightarrow> ('k, 'v) jsmap list" where
  "run_puts cap [] m = []"
| "run_puts cap ((k, v) # ps) m =
     (let m' = addToCache cap k v m in m' # run_puts cap ps m')"

section \<open>memory-leak-example.md: time to live\<close>

text \<open>
  \<^verbatim>\<open>
  function addToCacheWithTTL(key, value, ttlMs = 3600000) {
      leakyCache.set(key, { value, expires: Date.now() + ttlMs });
  }
  \<close>
  \<open>Date.now()\<close> is the argument \<open>now\<close> (milliseconds, an integer); an omitted \<open>ttlMs\<close> is
  \<open>None\<close> and takes the default.
\<close>

record 'v entry =
  val :: 'v
  expires :: int

definition addToCacheWithTTL ::
  "int \<Rightarrow> 'k \<Rightarrow> 'v \<Rightarrow> int option \<Rightarrow> ('k, 'v entry) jsmap \<Rightarrow> ('k, 'v entry) jsmap" where
  "addToCacheWithTTL now key v ttl leakyCache =
     (let ttlMs = (case ttl of None \<Rightarrow> 3600000 | Some t \<Rightarrow> t)
      in Map_set key \<lparr>val = v, expires = now + ttlMs\<rparr> leakyCache)"

text \<open>
  \<^verbatim>\<open>
  setInterval(() => {
      const now = Date.now();
      for (const [key, entry] of leakyCache.entries()) {
          if (entry.expires < now) { leakyCache.delete(key); }
      }
  }, 60000);
  \<close>
  The loop visits every entry that was in the Map when it started (deleting the entry
  under the iterator does not skip its successor, and nothing is added meanwhile), and
  deletes from the live Map.
\<close>

definition Map_entries :: "('k, 'v) jsmap \<Rightarrow> ('k \<times> 'v) list" where
  "Map_entries m = m"

fun cleanup_loop ::
  "int \<Rightarrow> ('k \<times> 'v entry) list \<Rightarrow> ('k, 'v entry) jsmap \<Rightarrow> ('k, 'v entry) jsmap" where
  "cleanup_loop now [] leakyCache = leakyCache"
| "cleanup_loop now ((key, e) # es) leakyCache =
     cleanup_loop now es (if expires e < now then Map_delete key leakyCache else leakyCache)"

definition cleanup :: "int \<Rightarrow> ('k, 'v entry) jsmap \<Rightarrow> ('k, 'v entry) jsmap" where
  "cleanup now leakyCache = cleanup_loop now (Map_entries leakyCache) leakyCache"

section \<open>The read operation\<close>

text \<open>
  Modelled from the spec: \<open>Get\<close>. No file of the repository reads the cache by key; the
  definition follows the specification's words: Get(key) returns "not found" if the key is
  absent or its expiration has passed (\<open>now >= expiration\<close>), and on such an expired hit
  removes the entry as a side effect; otherwise it returns the stored value. "Not found"
  is \<open>None\<close>; the cache after the call is the second component.
\<close>

definition Get :: "int \<Rightarrow> 'k \<Rightarrow> ('k, 'v entry) jsmap \<Rightarrow> 'v option \<times> ('k, 'v entry) jsmap" where
  "Get now key cache =
     (case Map_get key cache of
        None \<Rightarrow> (None, cache)
      | Some e \<Rightarrow>
          if now \<ge> expires e then (None, Map_delete key cache)
          else (Some (val e), cache))"

text \<open>A sequence of reads, each at its own time, with the answer of each.\<close>

fun run_gets :: "(int \<times> 'k) list \<Rightarrow> ('k, 'v entry) jsmap \<Rightarrow> 'v option list" where
  "run_gets [] cache = []"
| "run_gets ((now, key) # gs) cache =
     (case Get now key cache of (r, cache') \<Rightarrow> r # run_gets gs cache')"

section \<open>HTTP responses\<close>

text \<open>
  A response object as the handlers use it: the status code, the headers set so far, the
  data handed to \<open>res.end\<close>, and whether \<open>res.end\<close> was called. Every body the servers send
  is \<open>JSON.stringify\<close> of an object literal; the field \<open>body\<close> holds that object
  (\<open>None\<close> for \<open>res.end()\<close> without data). A fresh response has status 200. Header
  names are compared as written; the names the handlers set differ from one another in
  any letter case.
\<close>

datatype json = JStr string | JNum real | JObj "(string \<times> json) list"

record response =
  statusCode :: nat
  headers :: "(string \<times> string) list"
  body :: "json option"
  ended :: bool

definition fresh_response :: response where
  "fresh_response = \<lparr>statusCode = 200, headers = [], body = None, ended = False\<rparr>"

definition setHeader :: "string \<Rightarrow> string \<Rightarrow> response \<Rightarrow> response" where
  "setHeader name v res = res\<lparr>headers := Map_set name v (headers res)\<rparr>"

definition writeHead :: "nat \<Rightarrow> (string \<times> string) list \<Rightarrow> response \<Rightarrow> response" where
  "writeHead code hs res =
     (fold (\<lambda>(name, v). setHeader name v) hs res)\<lparr>statusCode := code\<rparr>"

definition res_end :: "json option \<Rightarrow> response \<Rightarrow> response" where
  "res_end data res = res\<lparr>body := data, ended := True\<rparr>"

definition has_json_body :: "response \<Rightarrow> bool" where
  "has_json_body res = (case body res of Some (JObj fs) \<Rightarrow> True | _ \<Rightarrow> False)"

definition json_field :: "string \<Rightarrow> json \<Rightarrow> json option" where
  "json_field name j = (case j of JObj fs \<Rightarrow> map_of fs name | _ \<Rightarrow> None)"

definition response_field :: "string \<Rightarrow> response \<Rightarrow> json option" where
  "response_field name res = (case body res of None \<Rightarrow> None | Some j \<Rightarrow> json_field name j)"

section \<open>memory-leak-example.js\<close>

text \<open>
  \<^verbatim>\<open>
  function createMemoryLeak() {
      const data = {
          timestamp: new Date().toISOString(),
          largeString: 'x'.repeat(1024 * 1024),
          randomData: Math.random().toString(36).repeat(1000)
      };
      leakyCache.set(Date.now(), data);
  }
  \<close>
  The clock and the random source are read from an environment record: one field for
  each read, in the order of the reads.
\<close>

record leak_data =
  timestamp :: string
  largeString :: string
  randomData :: string

record memoryUsage =
  rss :: nat
  heapTotal :: nat
  heapUsed :: nat
  external :: nat

record leak_env =
  data_iso :: string
  random36 :: string
  key_now :: int
  resp_iso :: string
  mem :: memoryUsage

definition js_repeat :: "string \<Rightarrow> nat \<Rightarrow> string" where
  "js_repeat s n = concat (replicate n s)"

definition createMemoryLeak ::
  "leak_env \<Rightarrow> (int, leak_data) jsmap \<Rightarrow> (int, leak_data) jsmap" where
  "createMemoryLeak env leakyCache =
     (let data = \<lparr>timestamp = data_iso env,
                  largeString = js_repeat ''x'' (1024 * 1024),
                  randomData = js_repeat (random36 env) 1000\<rparr>
      in Map_set (key_now env) data leakyCache)"

text \<open>\<open>`${Math.round(bytes / 1024 / 1024)}MB`\<close>: the byte counts are natural numbers, the
  two divisions by a power of two are exact, and \<open>Math.round\<close> rounds halves up.\<close>

fun show_nat :: "nat \<Rightarrow> string" where
  "show_nat n =
     (if n < 10 then [''0123456789'' ! n]
      else show_nat (n div 10) @ [''0123456789'' ! (n mod 10)])"

declare show_nat.simps [simp del]

definition roundMB :: "nat \<Rightarrow> string" where
  "roundMB bytes = show_nat ((bytes + 524288) div 1048576) @ ''MB''"

definition memoryUsage_json :: "memoryUsage \<Rightarrow> json" where
  "memoryUsage_json mu =
     JObj [(''rss'', JStr (roundMB (rss mu))),
           (''heapTotal'', JStr (roundMB (heapTotal mu))),
           (''heapUsed'', JStr (roundMB (heapUsed mu))),
           (''external'', JStr (roundMB (external mu)))]"

text \<open>The request handler: \<open>/leak\<close>, \<open>/status\<close>, and a bare 404 for anything else.\<close>

definition leak_handler ::
  "leak_env \<Rightarrow> string \<Rightarrow> response \<Rightarrow> (int, leak_data) jsmap
     \<Rightarrow> response \<times> (int, leak_data) jsmap" where
  "leak_handler env url res leakyCache =
     (if url = ''/leak'' then
        (let leakyCache' = createMemoryLeak env leakyCache
         in (res_end (Some (JObj [(''message'', JStr ''Memory leak created''),
                                  (''cacheSize'', JNum (real (Map_size leakyCache'))),
                                  (''timestamp'', JStr (resp_iso env))]))
               (writeHead 200 [(''Content-Type'', ''application/json'')] res),
             leakyCache'))
      else if url = ''/status'' then
        (res_end (Some (JObj [(''memoryUsage'', memoryUsage_json (mem env)),
                              (''cacheSize'', JNum (real (Map_size leakyCache))),
                              (''timestamp'', JStr (resp_iso env))]))
           (writeHead 200 [(''Content-Type'', ''application/json'')] res),
         leakyCache)
      else (res_end None (writeHead 404 [] res), leakyCache))"

text \<open>
  \<^verbatim>\<open>
  process.on('SIGINT', () => {
      console.log('Cleaning up...');
      leakyCache.clear();
      process.exit(0);
  });
  \<close>
  The handler is the only place of the repository that clears the cache; the document
  repeats it as the cleanup of the repaired cache, so it is stated for a Map of any
  entries.
\<close>

definition SIGINT_handler :: "('k, 'v) jsmap \<Rightarrow> ('k, 'v) jsmap" where
  "SIGINT_handler leakyCache = Map_clear leakyCache"

text \<open>What can happen to the process: a request, a tick of the monitoring interval (which
  only logs), and SIGINT.\<close>

datatype leak_event = Request string | MonitorTick | SIGINT

fun leak_step :: "leak_env \<Rightarrow> leak_event \<Rightarrow> (int, leak_data) jsmap \<Rightarrow> (int, leak_data) jsmap" where
  "leak_step env (Request url) leakyCache = snd (leak_handler env url fresh_response leakyCache)"
| "leak_step env MonitorTick leakyCache = leakyCache"
| "leak_step env SIGINT leakyCache = SIGINT_handler leakyCache"

text \<open>A run of requests to \<open>/leak\<close>, each with its own readings of the clock.\<close>

fun run_leaks :: "leak_env list \<Rightarrow> (int, leak_data) jsmap \<Rightarrow> (int, leak_data) jsmap" where
  "run_leaks [] leakyCache = leakyCache"
| "run_leaks (env # envs) leakyCache =
     run_leaks envs (leak_step env (Request ''/leak'') leakyCache)"

section \<open>The routed server\<close>

text \<open>
  The handler sets four headers, then switches on \<open>req.url\<close> with strict equality. Its body
  is a \<open>try\<close> block; the \<open>catch\<close> branch answers 500. No statement of the \<open>try\<close> block raises
  (the headers are not yet sent, the object literals hold strings and numbers only), so
  \<open>route\<close> has no \<open>Inl\<close> result, but the handler keeps the branch.
\<close>

record routed_env =
  now_iso :: string
  uptime :: real

datatype js_error = Exception

definition default_headers :: "response \<Rightarrow> response" where
  "default_headers res =
     setHeader ''X-XSS-Protection'' ''1; mode=block''
       (setHeader ''X-Frame-Options'' ''DENY''
         (setHeader ''X-Content-Type-Options'' ''nosniff''
           (setHeader ''Content-Type'' ''application/json'' res)))"

definition route :: "routed_env \<Rightarrow> string \<Rightarrow> response \<Rightarrow> js_error + response" where
  "route env url res0 =
     (let res = default_headers res0 in
      if url = ''/'' then
        Inr (res_end (Some (JObj [(''message'', JStr ''Welcome to the homepage''),
                                  (''timestamp'', JStr (now_iso env))]))
               (res\<lparr>statusCode := 200\<rparr>))
      else if url = ''/about'' then
        Inr (res_end (Some (JObj [(''message'', JStr ''About page''),
                                  (''version'', JStr ''1.0.0'')]))
               (res\<lparr>statusCode := 200\<rparr>))
      else if url = ''/api/status'' then
        Inr (res_end (Some (JObj [(''status'', JStr ''operational''),
                                  (''uptime'', JNum (uptime env)),
                                  (''timestamp'', JStr (now_iso env))]))
               (res\<lparr>statusCode := 200\<rparr>))
      else
        Inr (res_end (Some (JObj [(''error'', JStr ''Not Found''),
                                  (''message'', JStr ''The requested resource was not found'')]))
               (res\<lparr>statusCode := 404\<rparr>)))"

definition routed_handler :: "routed_env \<Rightarrow> string \<Rightarrow> response \<Rightarrow> response" where
  "routed_handler env url res =
     (case route env url res of
        Inr res' \<Rightarrow> res'
      | Inl error \<Rightarrow>
          res_end (Some (JObj [(''error'', JStr ''Internal Server Error''),
                               (''message'', JStr ''An unexpected error occurred'')]))
            (res\<lparr>statusCode := 500\<rparr>))"

section \<open>Facts about the Map operations\<close>

lemma Map_set_length:
  "length (Map_set k v m) = (if k \<in> fst ` set m then length m else Suc (length m))"
  by (induction m) force+

lemma Map_set_keys_present:
  "k \<in> fst ` set m \<Longrightarrow> map fst (Map_set k v m) = map fst m"
  by (induction m) force+

lemma Map_set_keys_absent:
  "k \<notin> fst ` set m \<Longrightarrow> Map_set k v m = m @ [(k, v)]"
  by (induction m) auto

lemma Map_set_key_set:
  "fst ` set (Map_set k v m) = insert k (fst ` set m)"
proof (induction m)
  case Nil
  show ?case by simp
next
  case (Cons p m)
  obtain k' v' where p: "p = (k', v')" by (cases p)
  show ?case
  proof (cases "k' = k")
    case True
    with p show ?thesis by simp
  next
    case False
    with p Cons show ?thesis by (simp add: insert_commute)
  qed
qed

lemma Map_set_wf: "wf_map m \<Longrightarrow> wf_map (Map_set k v m)"
proof (cases "k \<in> fst ` set m")
  case True
  assume "wf_map m"
  with True show ?thesis by (simp add: wf_map_def Map_set_keys_present)
next
  case False
  assume "wf_map m"
  with False show ?thesis by (simp add: wf_map_def Map_set_keys_absent)
qed

lemma Map_get_set_same: "Map_get k (Map_set k v m) = Some v"
  by (induction m) (auto simp: Map_get_def)

lemma Map_get_set_other: "k' \<noteq> k \<Longrightarrow> Map_get k' (Map_set k v m) = Map_get k' m"
  by (induction m) (auto simp: Map_get_def)

lemma Map_get_delete_same: "Map_get k (Map_delete k m) = None"
  by (induction m) (auto simp: Map_get_def Map_delete_def)

lemma Map_get_delete_other: "k' \<noteq> k \<Longrightarrow> Map_get k' (Map_delete k m) = Map_get k' m"
  by (induction m) (auto simp: Map_get_def Map_delete_def)

lemma Map_delete_wf: "wf_map m \<Longrightarrow> wf_map (Map_delete k m)"
  by (simp add: wf_map_def Map_delete_def distinct_map_filter)

lemma Map_delete_length_le: "length (Map_delete k m) \<le> length m"
  by (simp add: Map_delete_def)

lemma Map_delete_head_wf:
  "wf_map ((k, v) # m) \<Longrightarrow> Map_delete k ((k, v) # m) = m"
proof -
  assume "wf_map ((k, v) # m)"
  then have "\<forall>p \<in> set m. fst p \<noteq> k" by (auto simp: wf_map_def)
  then show ?thesis by (simp add: Map_delete_def)
qed

lemma Map_delete_head_shorter:
  "length (Map_delete k ((k, v) # m)) \<le> length m"
  by (simp add: Map_delete_def)

lemma Map_get_None_iff: "Map_get k m = None \<longleftrightarrow> k \<notin> fst ` set m"
  by (simp add: Map_get_def map_of_eq_None_iff)

section \<open>Facts about addToCache\<close>

lemma addToCache_below:
  "Map_size m < cap \<Longrightarrow> addToCache cap k v m = Map_set k v m"
  by (simp add: addToCache_def)

lemma addToCache_full_cons:
  "cap \<le> Map_size ((k0, v0) # m) \<Longrightarrow>
   addToCache cap k v ((k0, v0) # m) = Map_set k v (Map_delete k0 ((k0, v0) # m))"
  by (simp add: addToCache_def Map_keys_def next_value_def)

lemma addToCache_empty: "addToCache cap k v [] = [(k, v)]"
  by (simp add: addToCache_def Map_keys_def next_value_def)

lemma addToCache_wf: "wf_map m \<Longrightarrow> wf_map (addToCache cap k v m)"
  by (auto simp: addToCache_def Let_def Map_set_wf Map_delete_wf split: option.splits)

lemma addToCache_size_step:
  assumes "0 < cap" and "Map_size m \<le> cap"
  shows "Map_size (addToCache cap k v m) \<le> cap"
proof (cases "Map_size m < cap")
  case True
  then have "addToCache cap k v m = Map_set k v m" by (rule addToCache_below)
  moreover have "length (Map_set k v m) \<le> Suc (length m)" by (simp add: Map_set_length)
  ultimately show ?thesis using True by (simp add: Map_size_def)
next
  case False
  with assms have full: "Map_size m = cap" by simp
  with assms obtain k0 v0 rest where m: "m = (k0, v0) # rest"
    by (cases m) (auto simp: Map_size_def)
  have "addToCache cap k v m = Map_set k v (Map_delete k0 ((k0, v0) # rest))"
    using full m addToCache_full_cons [of cap k0 v0 rest k v] by simp
  moreover have "length (Map_set k v (Map_delete k0 ((k0, v0) # rest))) \<le> Suc (length rest)"
    using Map_delete_head_shorter [of k0 v0 rest] by (simp add: Map_set_length)
  ultimately show ?thesis using full m by (simp add: Map_size_def)
qed

lemma run_puts_bounded:
  "0 < cap \<Longrightarrow> Map_size m \<le> cap \<Longrightarrow> list_all (\<lambda>s. Map_size s \<le> cap) (run_puts cap ps m)"
proof (induction ps arbitrary: m)
  case Nil
  then show ?case by simp
next
  case (Cons p ps)
  obtain k v where p: "p = (k, v)" by (cases p)
  have "Map_size (addToCache cap k v m) \<le> cap"
    using Cons.prems by (rule addToCache_size_step)
  with Cons p show ?case by (simp add: Let_def)
qed


section \<open>The claims about the cache limit\<close>

text \<open>
  C1: after every call of a sequence of \<open>addToCache\<close> calls, however long, the entry count
  is at most the limit. This holds at the limit the document fixes, \<open>MAX_CACHE_SIZE\<close>, from
  the empty cache on, and at every limit of at least one from any cache within the limit.
\<close>

theorem C1_size_bounded:
  "list_all (\<lambda>s. Map_size s \<le> MAX_CACHE_SIZE) (run_puts MAX_CACHE_SIZE ps []) \<and>
   (0 < cap \<and> Map_size m \<le> cap \<longrightarrow>
      list_all (\<lambda>s. Map_size s \<le> cap) (run_puts cap qs m))"
proof (rule conjI)
  have "0 < MAX_CACHE_SIZE" by (simp add: MAX_CACHE_SIZE_def)
  moreover have "Map_size ([] :: ('a, 'b) jsmap) \<le> MAX_CACHE_SIZE" by (simp add: Map_size_def)
  ultimately show "list_all (\<lambda>s. Map_size s \<le> MAX_CACHE_SIZE)
      (run_puts MAX_CACHE_SIZE ps ([] :: ('a, 'b) jsmap))"
    by (rule run_puts_bounded)
next
  show "0 < cap \<and> Map_size m \<le> cap \<longrightarrow>
      list_all (\<lambda>s. Map_size s \<le> cap) (run_puts cap qs m)"
  proof
    assume "0 < cap \<and> Map_size m \<le> cap"
    then have "0 < cap" and "Map_size m \<le> cap" by simp_all
    then show "list_all (\<lambda>s. Map_size s \<le> cap) (run_puts cap qs m)"
      by (rule run_puts_bounded)
  qed
qed

theorem C1_size_bounded_witness:
  "(0::nat) < 2 \<and> Map_size ([] :: (int, string) jsmap) \<le> 2 \<and>
   list_all (\<lambda>s. Map_size s \<le> 2)
     (run_puts 2 [(1::int, ''a''), (2, ''b''), (3, ''c''), (2, ''d''), (4, ''e'')] []) \<and>
   map Map_size (run_puts 2 [(1::int, ''a''), (2, ''b''), (3, ''c''), (2, ''d''), (4, ''e'')] [])
     = [1, 2, 2, 2, 2]"
proof -
  have h: "(0::nat) < 2 \<and> Map_size ([] :: (int, string) jsmap) \<le> 2"
    by (simp add: Map_size_def)
  note bound = C1_size_bounded [THEN conjunct2, THEN mp, OF h]
  have sizes: "map Map_size
      (run_puts 2 [(1::int, ''a''), (2, ''b''), (3, ''c''), (2, ''d''), (4, ''e'')] [])
     = [1, 2, 2, 2, 2]"
    by (simp add: addToCache_def Map_size_def Map_keys_def next_value_def Map_delete_def)
  from h bound [of "[(1::int, ''a''), (2, ''b''), (3, ''c''), (2, ''d''), (4, ''e'')]"] sizes
  show ?thesis by (elim conjE) (intro conjI; assumption)
qed

text \<open>
  C3: when the entry count equals the capacity before the call, \<open>addToCache\<close> removes exactly
  the oldest entry (the head of the insertion order) and then stores the new one: the
  result is the rest of the cache with the key set in it. So the oldest key is gone
  (unless it is the key being stored), the stored key has its value, and every other key
  keeps what it had.
\<close>

theorem C3_evicts_oldest:
  assumes "wf_map ((k0, v0) # rest)" and "Map_size ((k0, v0) # rest) = cap"
  shows "addToCache cap k v ((k0, v0) # rest) = Map_set k v rest \<and>
         (k \<noteq> k0 \<longrightarrow> Map_get k0 (addToCache cap k v ((k0, v0) # rest)) = None) \<and>
         Map_get k (addToCache cap k v ((k0, v0) # rest)) = Some v \<and>
         (\<forall>k'. k' \<noteq> k \<and> k' \<noteq> k0 \<longrightarrow>
            Map_get k' (addToCache cap k v ((k0, v0) # rest)) = Map_get k' ((k0, v0) # rest))"
proof -
  have eq: "addToCache cap k v ((k0, v0) # rest) = Map_set k v rest"
    using assms addToCache_full_cons [of cap k0 v0 rest k v] Map_delete_head_wf [of k0 v0 rest]
    by simp
  have "k0 \<notin> fst ` set rest" using assms(1) by (simp add: wf_map_def)
  then have gone: "Map_get k0 rest = None" by (simp add: Map_get_None_iff)
  have other: "Map_get k' ((k0, v0) # rest) = Map_get k' rest" if "k' \<noteq> k0" for k'
    using that by (simp add: Map_get_def)
  show ?thesis
    by (simp add: eq Map_get_set_same Map_get_set_other gone other)
qed

theorem C3_evicts_oldest_witness:
  "wf_map [(''A'', 1::int), (''B'', 2)] \<and> Map_size [(''A'', 1::int), (''B'', 2)] = 2 \<and>
   addToCache 2 ''B'' 2 (addToCache 2 ''A'' (1::int) []) = [(''A'', 1), (''B'', 2)] \<and>
   addToCache 2 ''C'' 3 [(''A'', 1::int), (''B'', 2)] = [(''B'', 2), (''C'', 3)] \<and>
   Map_get ''A'' (addToCache 2 ''C'' 3 [(''A'', 1::int), (''B'', 2)]) = None \<and>
   Map_get ''B'' (addToCache 2 ''C'' 3 [(''A'', 1::int), (''B'', 2)]) = Some 2 \<and>
   Map_get ''C'' (addToCache 2 ''C'' 3 [(''A'', 1::int), (''B'', 2)]) = Some 3"
proof -
  have h1: "wf_map [(''A'', 1::int), (''B'', 2)]" by (simp add: wf_map_def)
  have h2: "Map_size [(''A'', 1::int), (''B'', 2)] = 2" by (simp add: Map_size_def)
  have h3: "addToCache 2 ''B'' 2 (addToCache 2 ''A'' (1::int) []) = [(''A'', 1), (''B'', 2)]"
    by (simp add: addToCache_def Map_size_def)
  from C3_evicts_oldest [OF h1 h2, of "''C''" 3] h1 h2 h3 show ?thesis
    by (simp add: Map_get_def)
qed


section \<open>Facts about the sweep and the read\<close>

lemma cleanup_loop_filter:
  "cleanup_loop now es m =
     filter (\<lambda>p. \<not> (\<exists>e. (fst p, e) \<in> set es \<and> expires e < now)) m"
proof (induction es arbitrary: m)
  case Nil
  show ?case by simp
next
  case (Cons x es)
  obtain key e where x: "x = (key, e)" by (cases x)
  show ?case
  proof (cases "expires e < now")
    case True
    have "cleanup_loop now (x # es) m = cleanup_loop now es (Map_delete key m)"
      using x True by simp
    also have "\<dots> = filter (\<lambda>p. \<not> (\<exists>e. (fst p, e) \<in> set es \<and> expires e < now))
                       (Map_delete key m)"
      by (rule Cons.IH)
    also have "\<dots> = filter (\<lambda>p. \<not> (\<exists>e'. (fst p, e') \<in> set (x # es) \<and> expires e' < now)) m"
      unfolding Map_delete_def filter_filter using x True by (intro filter_cong) auto
    finally show ?thesis .
  next
    case False
    have "cleanup_loop now (x # es) m = cleanup_loop now es m"
      using x False by simp
    also have "\<dots> = filter (\<lambda>p. \<not> (\<exists>e. (fst p, e) \<in> set es \<and> expires e < now)) m"
      by (rule Cons.IH)
    also have "\<dots> = filter (\<lambda>p. \<not> (\<exists>e'. (fst p, e') \<in> set (x # es) \<and> expires e' < now)) m"
      using x False by (intro filter_cong) auto
    finally show ?thesis .
  qed
qed

lemma cleanup_filter:
  assumes "wf_map m"
  shows "cleanup now m = filter (\<lambda>p. \<not> expires (snd p) < now) m"
proof -
  have "(\<exists>e. (fst p, e) \<in> set m \<and> expires e < now) \<longleftrightarrow> expires (snd p) < now"
    if "p \<in> set m" for p
  proof
    assume "\<exists>e. (fst p, e) \<in> set m \<and> expires e < now"
    then obtain e where e: "(fst p, e) \<in> set m" "expires e < now" by blast
    have "(fst p, snd p) \<in> set m" using that by simp
    with assms e(1) have "e = snd p"
      unfolding wf_map_def by (rule eq_key_imp_eq_value)
    with e(2) show "expires (snd p) < now" by simp
  next
    assume "expires (snd p) < now"
    moreover have "(fst p, snd p) \<in> set m" using that by simp
    ultimately show "\<exists>e. (fst p, e) \<in> set m \<and> expires e < now" by blast
  qed
  then show ?thesis
    unfolding cleanup_def Map_entries_def cleanup_loop_filter
    by (intro filter_cong) auto
qed


lemma Get_expired:
  "Map_get k c = Some e \<Longrightarrow> expires e \<le> now \<Longrightarrow> Get now k c = (None, Map_delete k c)"
  by (simp add: Get_def)

lemma Get_live:
  "Map_get k c = Some e \<Longrightarrow> now < expires e \<Longrightarrow> Get now k c = (Some (val e), c)"
  by (simp add: Get_def)

lemma Get_frame: "k' \<noteq> k \<Longrightarrow> Map_get k' (snd (Get now k c)) = Map_get k' c"
  by (simp add: Get_def Map_get_delete_other split: option.splits)

lemma Map_get_put_ttl:
  "Map_get k (addToCacheWithTTL now k v ttl m) =
     Some \<lparr>val = v, expires = now + (case ttl of None \<Rightarrow> 3600000 | Some t \<Rightarrow> t)\<rparr>"
  by (simp add: addToCacheWithTTL_def Map_get_set_same)

text \<open>Every operation keeps the keys of the Map unique.\<close>

lemma addToCacheWithTTL_wf: "wf_map m \<Longrightarrow> wf_map (addToCacheWithTTL now k v ttl m)"
  by (simp add: addToCacheWithTTL_def Let_def Map_set_wf)

lemma cleanup_wf: "wf_map m \<Longrightarrow> wf_map (cleanup now m)"
  by (simp add: cleanup_filter) (simp add: wf_map_def distinct_map_filter)

lemma Get_wf: "wf_map m \<Longrightarrow> wf_map (snd (Get now k m))"
  by (simp add: Get_def Map_delete_wf split: option.splits)

section \<open>The claims about time to live\<close>

text \<open>
  C2: after \<open>addToCacheWithTTL\<close> at time \<open>now0\<close> with time to live \<open>ttlMs\<close> (expiration
  \<open>now0 + ttlMs\<close>), a read of that key at any time strictly before the expiration returns
  the stored value and leaves the cache as it is; a read at or after the expiration returns
  "not found" and removes the entry, with no sweep in between.
\<close>

theorem C2_get_respects_ttl:
  "(t < now0 + ttlMs \<longrightarrow>
      Get t k (addToCacheWithTTL now0 k v (Some ttlMs) m) =
        (Some v, addToCacheWithTTL now0 k v (Some ttlMs) m)) \<and>
   (now0 + ttlMs \<le> t \<longrightarrow>
      Get t k (addToCacheWithTTL now0 k v (Some ttlMs) m) =
        (None, Map_delete k (addToCacheWithTTL now0 k v (Some ttlMs) m)) \<and>
      Map_get k (snd (Get t k (addToCacheWithTTL now0 k v (Some ttlMs) m))) = None)"
proof -
  let ?c = "addToCacheWithTTL now0 k v (Some ttlMs) m"
  have stored: "Map_get k ?c = Some \<lparr>val = v, expires = now0 + ttlMs\<rparr>"
    using Map_get_put_ttl [of k now0 v "Some ttlMs" m] by simp
  have live: "Get t k ?c = (Some v, ?c)" if "t < now0 + ttlMs"
    using Get_live [OF stored, of t] that by simp
  have dead: "Get t k ?c = (None, Map_delete k ?c)" if "now0 + ttlMs \<le> t"
    using Get_expired [OF stored, of t] that by simp
  show ?thesis using live dead by (simp add: Map_get_delete_same)
qed

theorem C2_get_respects_ttl_witness:
  "(9::int) < 0 + 10 \<and> (0::int) + 10 \<le> 11 \<and>
   addToCacheWithTTL 0 ''x'' (1::int) (Some 10) [] = [(''x'', \<lparr>val = 1, expires = 10\<rparr>)] \<and>
   Get 9 ''x'' (addToCacheWithTTL 0 ''x'' (1::int) (Some 10) []) =
     (Some 1, [(''x'', \<lparr>val = 1, expires = 10\<rparr>)]) \<and>
   Get 11 ''x'' (addToCacheWithTTL 0 ''x'' (1::int) (Some 10) []) = (None, [])"
proof -
  have put: "addToCacheWithTTL 0 ''x'' (1::int) (Some 10) [] = [(''x'', \<lparr>val = 1, expires = 10\<rparr>)]"
    by (simp add: addToCacheWithTTL_def)
  from C2_get_respects_ttl [of 9 0 10 "''x''" "1::int" "[]"]
       C2_get_respects_ttl [of 11 0 10 "''x''" "1::int" "[]"] put
  show ?thesis by (simp add: Map_delete_def)
qed

text \<open>
  C4 (as stated): after the sweep at time \<open>now\<close> no remaining entry has
  \<open>expiration <= now\<close>. The sweep tests \<open>entry.expires < now\<close>, so an entry that expires
  exactly at \<open>now\<close> stays.
\<close>

theorem C4_boundary_counterexample:
  "cleanup 10 [(''x'', \<lparr>val = 1::int, expires = 10\<rparr>)] = [(''x'', \<lparr>val = 1, expires = 10\<rparr>)] \<and>
   expires \<lparr>val = 1::int, expires = 10\<rparr> \<le> 10"
  by (simp add: cleanup_def Map_entries_def)

text \<open>
  C4 (amended): the sweep at time \<open>now\<close> removes exactly the entries whose expiration is
  strictly before \<open>now\<close> and keeps the others, in order; immediately after it no remaining
  entry has \<open>expiration < now\<close>. It does so on its own, whatever was read before.
\<close>

theorem C4_sweep_removes_expired:
  assumes "wf_map m"
  shows "cleanup now m = filter (\<lambda>p. \<not> expires (snd p) < now) m \<and>
         list_all (\<lambda>p. now \<le> expires (snd p)) (cleanup now m)"
  using cleanup_filter [OF assms, of now] by (simp add: list_all_iff)

theorem C4_sweep_removes_expired_witness:
  "wf_map [(''a'', \<lparr>val = 1::int, expires = 5\<rparr>), (''b'', \<lparr>val = 2, expires = 10\<rparr>),
           (''c'', \<lparr>val = 3, expires = 20\<rparr>)] \<and>
   cleanup 10 [(''a'', \<lparr>val = 1::int, expires = 5\<rparr>), (''b'', \<lparr>val = 2, expires = 10\<rparr>),
               (''c'', \<lparr>val = 3, expires = 20\<rparr>)] =
     [(''b'', \<lparr>val = 2, expires = 10\<rparr>), (''c'', \<lparr>val = 3, expires = 20\<rparr>)]"
proof -
  have h: "wf_map [(''a'', \<lparr>val = 1::int, expires = 5\<rparr>), (''b'', \<lparr>val = 2, expires = 10\<rparr>),
                   (''c'', \<lparr>val = 3, expires = 20\<rparr>)]"
    by (simp add: wf_map_def)
  from C4_sweep_removes_expired [OF h, of 10] h show ?thesis by simp
qed


section \<open>Overwriting, failure, clearing and the frame\<close>

lemma Get_empty: "Get now k [] = (None, [])"
  by (simp add: Get_def Map_get_def)

lemma run_gets_empty: "run_gets gs [] = replicate (length gs) None"
proof (induction gs)
  case Nil
  show ?case by simp
next
  case (Cons g gs)
  obtain now k where g: "g = (now, k)" by (cases g)
  with Cons show ?case by (simp add: Get_empty)
qed

lemma map_of_filter_keeps:
  "map_of m k = Some e \<Longrightarrow> P (k, e) \<Longrightarrow> map_of (filter P m) k = Some e"
  by (induction m) (auto split: if_splits)

lemma addToCache_frame:
  assumes "k' \<noteq> k"
    and "\<not> (cap \<le> Map_size m \<and> next_value (Map_keys m) = Some k')"
  shows "Map_get k' (addToCache cap k v m) = Map_get k' m"
proof (cases "cap \<le> Map_size m")
  case False
  then have "addToCache cap k v m = Map_set k v m" by (simp add: addToCache_below)
  with assms(1) show ?thesis by (simp add: Map_get_set_other)
next
  case True
  show ?thesis
  proof (cases m)
    case Nil
    then show ?thesis using assms(1) by (simp add: addToCache_empty Map_get_def)
  next
    case (Cons p rest)
    obtain k0 v0 where p: "p = (k0, v0)" by (cases p)
    have "k' \<noteq> k0"
      using assms(2) True Cons p by (simp add: Map_keys_def next_value_def)
    moreover have "addToCache cap k v m = Map_set k v (Map_delete k0 m)"
      using True Cons p addToCache_full_cons [of cap k0 v0 rest k v] by simp
    ultimately show ?thesis
      using assms(1) by (simp add: Map_get_set_other Map_get_delete_other)
  qed
qed

lemma cleanup_frame:
  assumes "wf_map m" and "Map_get k' m = Some e" and "\<not> expires e < now"
  shows "Map_get k' (cleanup now m) = Some e"
proof -
  have "map_of (filter (\<lambda>p. \<not> expires (snd p) < now) m) k' = Some e"
    using assms(2,3) by (intro map_of_filter_keeps) (simp_all add: Map_get_def)
  then show ?thesis
    using cleanup_filter [OF assms(1), of now] by (simp add: Map_get_def)
qed

text \<open>
  C5 (as stated): a Put on a present key leaves the size unchanged and counts as a fresh
  insertion at the back of the eviction order. Two things differ in \<open>addToCache\<close>. The Map's
  \<open>set\<close> keeps an overwritten key at its old position: with capacity 3, after x, y, x again,
  z, w, the key evicted is the overwritten x, and y, written before it, survives. And when
  the cache is at capacity the oldest entry is deleted before the overwrite: with capacity
  2 and keys x, y, overwriting y leaves one entry.
\<close>

theorem C5_overwrite_counterexample:
  "Map_keys (addToCache 3 ''x'' (2::int) [(''x'', 1), (''y'', 1)]) = [''x'', ''y''] \<and>
   addToCache 3 ''w'' 1 (addToCache 3 ''z'' 1 (addToCache 3 ''x'' (2::int) [(''x'', 1), (''y'', 1)]))
     = [(''y'', 1), (''z'', 1), (''w'', 1)] \<and>
   Map_size [(''x'', 1::int), (''y'', 1)] = 2 \<and>
   Map_size (addToCache 2 ''y'' (2::int) [(''x'', 1), (''y'', 1)]) = 1"
  by (simp add: addToCache_def Map_size_def Map_keys_def next_value_def Map_delete_def)

text \<open>
  C5 (amended): a Put on a key that is already present, in a cache below its capacity,
  leaves the size unchanged, replaces the entry (its value, and with \<open>addToCacheWithTTL\<close>
  its expiration too), keeps the key at its position in the insertion order, and leaves
  every other key as it was; a lookup of the key then gives the new value.
\<close>

theorem C5_overwrite_in_place:
  assumes "Map_get k m = Some v0" and "Map_size m < cap"
  shows "Map_size (addToCache cap k v m) = Map_size m \<and>
         Map_get k (addToCache cap k v m) = Some v \<and>
         Map_keys (addToCache cap k v m) = Map_keys m \<and>
         (\<forall>k'. k' \<noteq> k \<longrightarrow> Map_get k' (addToCache cap k v m) = Map_get k' m) \<and>
         (Map_get k c = Some e0 \<longrightarrow>
            Map_size (addToCacheWithTTL now k w (Some ttlMs) c) = Map_size c \<and>
            Map_keys (addToCacheWithTTL now k w (Some ttlMs) c) = Map_keys c \<and>
            Map_get k (addToCacheWithTTL now k w (Some ttlMs) c) =
              Some \<lparr>val = w, expires = now + ttlMs\<rparr>)"
proof -
  have eq: "addToCache cap k v m = Map_set k v m"
    using assms(2) by (rule addToCache_below)
  have present: "k \<in> fst ` set m"
    using assms(1) Map_get_None_iff [of k m] by auto
  have size1: "Map_size (Map_set k v m) = Map_size m"
    using present by (simp add: Map_size_def Map_set_length)
  have keys1: "Map_keys (Map_set k v m) = Map_keys m"
    using present by (simp add: Map_keys_def Map_set_keys_present)
  have other1: "\<forall>k'. k' \<noteq> k \<longrightarrow> Map_get k' (Map_set k v m) = Map_get k' m"
    by (simp add: Map_get_set_other)
  have ttl: "Map_size (addToCacheWithTTL now k w (Some ttlMs) c) = Map_size c \<and>
            Map_keys (addToCacheWithTTL now k w (Some ttlMs) c) = Map_keys c \<and>
            Map_get k (addToCacheWithTTL now k w (Some ttlMs) c) =
              Some \<lparr>val = w, expires = now + ttlMs\<rparr>"
    if "Map_get k c = Some e0"
  proof -
    have "k \<in> fst ` set c" using that Map_get_None_iff [of k c] by auto
    then show ?thesis
      by (simp add: addToCacheWithTTL_def Map_size_def Map_keys_def Map_set_length
          Map_set_keys_present Map_get_set_same)
  qed
  from size1 keys1 other1 ttl show ?thesis
    unfolding eq using Map_get_set_same [of k v m] by blast
qed

theorem C5_overwrite_in_place_witness:
  "Map_get ''x'' (addToCache 5 ''x'' (1::int) []) = Some 1 \<and>
   Map_size (addToCache 5 ''x'' (1::int) []) < 5 \<and>
   Map_size (addToCache 5 ''x'' 2 (addToCache 5 ''x'' (1::int) [])) =
     Map_size (addToCache 5 ''x'' (1::int) []) \<and>
   Map_get ''x'' (addToCache 5 ''x'' 2 (addToCache 5 ''x'' (1::int) [])) = Some 2 \<and>
   Map_get ''x'' [(''x'', \<lparr>val = 1::int, expires = 10\<rparr>)] = Some \<lparr>val = 1, expires = 10\<rparr> \<and>
   Map_get ''x'' (addToCacheWithTTL 7 ''x'' 2 (Some 10) [(''x'', \<lparr>val = 1::int, expires = 10\<rparr>)]) =
     Some \<lparr>val = 2, expires = 7 + 10\<rparr>"
proof -
  have h1: "Map_get ''x'' (addToCache 5 ''x'' (1::int) []) = Some 1"
    by (simp add: addToCache_empty Map_get_def)
  have h2: "Map_size (addToCache 5 ''x'' (1::int) []) < 5"
    by (simp add: addToCache_empty Map_size_def)
  have h3: "Map_get ''x'' [(''x'', \<lparr>val = 1::int, expires = 10\<rparr>)] = Some \<lparr>val = 1, expires = 10\<rparr>"
    by (simp add: Map_get_def)
  note t = C5_overwrite_in_place [OF h1 h2, of 2 "[(''x'', \<lparr>val = 1::int, expires = 10\<rparr>)]"
              "\<lparr>val = 1, expires = 10\<rparr>" 7 2 10]
  from t h3 have "Map_get ''x'' (addToCacheWithTTL 7 ''x'' 2 (Some 10) [(''x'', \<lparr>val = 1::int, expires = 10\<rparr>)]) =
     Some \<lparr>val = 2, expires = 7 + 10\<rparr>" by (elim conjE impE) assumption+
  with t h1 h2 h3 show ?thesis by (elim conjE) (intro conjI; assumption)
qed



text \<open>
  C7: the SIGINT handler's \<open>leakyCache.clear()\<close> leaves no entry, whatever the cache held.
  In the shipped server the size is 0 afterwards and no key is stored any more; for a cache
  of entries with expirations the size is 0 and every read that follows, of any key at any
  time, answers "not found" (no Put in between) and leaves the cache empty.
\<close>

theorem C7_clear_empties:
  "Map_size (leak_step env SIGINT m) = 0 \<and>
   Map_get k0 (leak_step env SIGINT m) = None \<and>
   Map_size (SIGINT_handler c) = 0 \<and>
   run_gets gs (SIGINT_handler c) = replicate (length gs) None \<and>
   Get now k (SIGINT_handler c) = (None, [])"
proof -
  have shipped: "leak_step env SIGINT m = []"
    by (simp add: SIGINT_handler_def Map_clear_def)
  have cleared: "SIGINT_handler c = []"
    by (simp add: SIGINT_handler_def Map_clear_def)
  show ?thesis
    unfolding shipped cleared
    by (simp add: Map_size_def Map_get_def run_gets_empty Get_empty)
qed

text \<open>
  C8: the frame. Across \<open>addToCache\<close>, a key other than the one stored and other than the
  oldest key of a cache at capacity keeps its entry; across \<open>addToCacheWithTTL\<close> and across
  a read, every key other than the targeted one keeps its entry. None of these depends on
  the entry being expired or not: storing never removes on expiry (below capacity it
  removes nothing at all), and a read or a sweep never removes on capacity (the sweep keeps
  every entry that is not expired, whatever the size).
\<close>

theorem C8_frame:
  "(k' \<noteq> k \<and> \<not> (cap \<le> Map_size m \<and> next_value (Map_keys m) = Some k') \<longrightarrow>
      Map_get k' (addToCache cap k v m) = Map_get k' m) \<and>
   (k' \<noteq> k \<longrightarrow> Map_get k' (addToCacheWithTTL now k w ttl c) = Map_get k' c) \<and>
   (k' \<noteq> k \<longrightarrow> Map_get k' (snd (Get now k c)) = Map_get k' c) \<and>
   (Map_size m < cap \<and> k' \<in> set (Map_keys m) \<longrightarrow> k' \<in> set (Map_keys (addToCache cap k v m))) \<and>
   (wf_map c \<and> Map_get k' c = Some e \<and> \<not> expires e < now \<longrightarrow>
      Map_get k' (cleanup now c) = Some e)"
proof -
  have "k' \<in> set (Map_keys (addToCache cap k v m))"
    if "Map_size m < cap" "k' \<in> set (Map_keys m)"
    using that by (simp add: addToCache_below Map_keys_def Map_set_key_set)
  then show ?thesis
    using addToCache_frame [of k' k cap m v] Get_frame [of k' k now c]
      cleanup_frame [of c k' e now]
    by (auto simp: addToCacheWithTTL_def Map_get_set_other)
qed

theorem C8_frame_witness:
  "Map_get ''B'' (addToCache 2 ''C'' \<lparr>val = 3::int, expires = 30\<rparr>
      [(''A'', \<lparr>val = 1, expires = 5\<rparr>), (''B'', \<lparr>val = 2, expires = 20\<rparr>)])
     = Some \<lparr>val = 2, expires = 20\<rparr> \<and>
   Map_get ''A'' (addToCacheWithTTL 10 ''C'' (3::int) (Some 20)
      [(''A'', \<lparr>val = 1, expires = 5\<rparr>), (''B'', \<lparr>val = 2, expires = 20\<rparr>)])
     = Some \<lparr>val = 1, expires = 5\<rparr> \<and>
   Map_get ''B'' (snd (Get 10 ''A'' [(''A'', \<lparr>val = 1::int, expires = 5\<rparr>), (''B'', \<lparr>val = 2, expires = 20\<rparr>)]))
     = Some \<lparr>val = 2, expires = 20\<rparr> \<and>
   ''A'' \<in> set (Map_keys (addToCache 3 ''C'' \<lparr>val = 3::int, expires = 30\<rparr>
      [(''A'', \<lparr>val = 1, expires = 5\<rparr>), (''B'', \<lparr>val = 2, expires = 20\<rparr>)])) \<and>
   Map_get ''B'' (cleanup 10 [(''A'', \<lparr>val = 1::int, expires = 5\<rparr>), (''B'', \<lparr>val = 2, expires = 20\<rparr>)])
     = Some \<lparr>val = 2, expires = 20\<rparr>"
proof -
  let ?c = "[(''A'', \<lparr>val = 1::int, expires = 5\<rparr>), (''B'', \<lparr>val = 2, expires = 20\<rparr>)]"
  have wf: "wf_map ?c" by (simp add: wf_map_def)
  have sz: "Map_size ?c = 2" by (simp add: Map_size_def)
  have ks: "Map_keys ?c = [''A'', ''B'']" by (simp add: Map_keys_def)
  have gA: "Map_get ''A'' ?c = Some \<lparr>val = 1, expires = 5\<rparr>" by (simp add: Map_get_def)
  have gB: "Map_get ''B'' ?c = Some \<lparr>val = 2, expires = 20\<rparr>" by (simp add: Map_get_def)
  from C8_frame [of "''B''" "''C''" 2 ?c "\<lparr>val = 3, expires = 30\<rparr>" 10 3 "Some 20" ?c
                    "\<lparr>val = 2, expires = 20\<rparr>"]
       C8_frame [of "''A''" "''C''" 3 ?c "\<lparr>val = 3, expires = 30\<rparr>" 10 3 "Some 20" ?c
                    "\<lparr>val = 1, expires = 5\<rparr>"]
       C8_frame [of "''B''" "''A''" 3 ?c "\<lparr>val = 3, expires = 30\<rparr>" 10 3 "Some 20" ?c
                    "\<lparr>val = 2, expires = 20\<rparr>"]
       wf sz ks gA gB
  show ?thesis by (simp add: next_value_def)
qed


section \<open>The shipped leak server\<close>

lemma createMemoryLeak_size:
  "Map_size (createMemoryLeak env m) =
     (if key_now env \<in> set (Map_keys m) then Map_size m else Map_size m + 1)"
  by (simp add: createMemoryLeak_def Let_def Map_size_def Map_keys_def Map_set_length)

lemma createMemoryLeak_keys:
  "set (Map_keys (createMemoryLeak env m)) = insert (key_now env) (set (Map_keys m))"
  by (simp add: createMemoryLeak_def Let_def Map_keys_def Map_set_key_set)

lemma leak_handler_cache:
  "snd (leak_handler env url res m) = (if url = ''/leak'' then createMemoryLeak env m else m)"
  by (simp add: leak_handler_def Let_def)

lemma leak_step_not_SIGINT:
  assumes "ev \<noteq> SIGINT"
  shows "leak_step env ev m = m \<or> leak_step env ev m = createMemoryLeak env m"
proof (cases ev)
  case (Request url)
  then show ?thesis by (simp add: leak_handler_cache)
next
  case MonitorTick
  then show ?thesis by simp
next
  case SIGINT
  with assms show ?thesis by simp
qed

lemma run_leaks_size:
  "distinct (map key_now envs) \<Longrightarrow> set (map key_now envs) \<inter> set (Map_keys m) = {} \<Longrightarrow>
   Map_size (run_leaks envs m) = Map_size m + length envs"
proof (induction envs arbitrary: m)
  case Nil
  show ?case by simp
next
  case (Cons env envs)
  let ?m' = "createMemoryLeak env m"
  have fresh: "key_now env \<notin> set (Map_keys m)" using Cons.prems(2) by auto
  have step: "leak_step env (Request ''/leak'') m = ?m'" by (simp add: leak_handler_cache)
  have "distinct (map key_now envs)" using Cons.prems(1) by simp
  moreover have "set (map key_now envs) \<inter> set (Map_keys ?m') = {}"
    using Cons.prems by (auto simp: createMemoryLeak_keys)
  ultimately have "Map_size (run_leaks envs ?m') = Map_size ?m' + length envs"
    by (rule Cons.IH)
  with fresh step show ?case by (simp add: createMemoryLeak_size)
qed

text \<open>
  C9: in the shipped server a call of \<open>createMemoryLeak\<close> adds one entry, or none when its
  \<open>Date.now()\<close> key is already in the Map, and keeps every key; every event other than
  SIGINT (a request to any URL, a tick of the monitor) keeps every key and grows the Map by
  at most one entry; SIGINT clears it. Nothing bounds the size: requests to \<open>/leak\<close> at
  pairwise different milliseconds add one entry each.
\<close>

theorem C9_leak_monotone:
  "Map_size (createMemoryLeak env m) =
     (if key_now env \<in> set (Map_keys m) then Map_size m else Map_size m + 1) \<and>
   set (Map_keys m) \<subseteq> set (Map_keys (createMemoryLeak env m)) \<and>
   (ev \<noteq> SIGINT \<longrightarrow>
      Map_size m \<le> Map_size (leak_step env ev m) \<and>
      Map_size (leak_step env ev m) \<le> Map_size m + 1 \<and>
      set (Map_keys m) \<subseteq> set (Map_keys (leak_step env ev m))) \<and>
   set (Map_keys m) \<subseteq> set (Map_keys (snd (leak_handler env url res m))) \<and>
   Map_size (leak_step env SIGINT m) = 0 \<and>
   (distinct (map key_now envs) \<longrightarrow> Map_size (run_leaks envs []) = length envs)"
proof -
  have keys: "set (Map_keys m) \<subseteq> set (Map_keys (createMemoryLeak env m))"
    by (auto simp: createMemoryLeak_keys)
  have size: "Map_size m \<le> Map_size (createMemoryLeak env m) \<and>
              Map_size (createMemoryLeak env m) \<le> Map_size m + 1"
    by (simp add: createMemoryLeak_size)
  have step: "Map_size m \<le> Map_size (leak_step env ev m) \<and>
      Map_size (leak_step env ev m) \<le> Map_size m + 1 \<and>
      set (Map_keys m) \<subseteq> set (Map_keys (leak_step env ev m))" if "ev \<noteq> SIGINT"
    using leak_step_not_SIGINT [OF that, of env m] keys size by auto
  have handler: "set (Map_keys m) \<subseteq> set (Map_keys (snd (leak_handler env url res m)))"
    using keys by (simp add: leak_handler_cache)
  have clear: "Map_size (leak_step env SIGINT m) = 0"
    by (simp add: SIGINT_handler_def Map_clear_def Map_size_def)
  have grow: "Map_size (run_leaks envs []) = length envs" if "distinct (map key_now envs)"
    using run_leaks_size [OF that, of "[]"] by (simp add: Map_keys_def Map_size_def)
  from createMemoryLeak_size [of env m] keys step handler clear grow
  show ?thesis by blast
qed

theorem C9_leak_monotone_witness:
  "Request ''/leak'' \<noteq> SIGINT \<and>
   Map_size (leak_step \<lparr>data_iso = ''t1'', random36 = ''0.r'', key_now = 1700000000000,
        resp_iso = ''t2'', mem = \<lparr>rss = 0, heapTotal = 0, heapUsed = 0, external = 0\<rparr>\<rparr>
      (Request ''/leak'') []) \<le> Map_size ([] :: (int, leak_data) jsmap) + 1 \<and>
   distinct (map key_now
      [\<lparr>data_iso = ''t1'', random36 = ''0.r'', key_now = 1700000000000,
        resp_iso = ''t2'', mem = \<lparr>rss = 0, heapTotal = 0, heapUsed = 0, external = 0\<rparr>\<rparr>,
       \<lparr>data_iso = ''t3'', random36 = ''0.s'', key_now = 1700000000001,
        resp_iso = ''t4'', mem = \<lparr>rss = 0, heapTotal = 0, heapUsed = 0, external = 0\<rparr>\<rparr>]) \<and>
   Map_size (run_leaks
      [\<lparr>data_iso = ''t1'', random36 = ''0.r'', key_now = 1700000000000,
        resp_iso = ''t2'', mem = \<lparr>rss = 0, heapTotal = 0, heapUsed = 0, external = 0\<rparr>\<rparr>,
       \<lparr>data_iso = ''t3'', random36 = ''0.s'', key_now = 1700000000001,
        resp_iso = ''t4'', mem = \<lparr>rss = 0, heapTotal = 0, heapUsed = 0, external = 0\<rparr>\<rparr>] []) = 2"
proof -
  let ?e1 = "\<lparr>data_iso = ''t1'', random36 = ''0.r'', key_now = 1700000000000,
        resp_iso = ''t2'', mem = \<lparr>rss = 0, heapTotal = 0, heapUsed = 0, external = 0\<rparr>\<rparr>"
  let ?e2 = "\<lparr>data_iso = ''t3'', random36 = ''0.s'', key_now = 1700000000001,
        resp_iso = ''t4'', mem = \<lparr>rss = 0, heapTotal = 0, heapUsed = 0, external = 0\<rparr>\<rparr>"
  have h1: "Request ''/leak'' \<noteq> SIGINT" by simp
  have h2: "distinct (map key_now [?e1, ?e2])" by simp
  have len: "length [?e1, ?e2] = 2" by simp
  note t = C9_leak_monotone [of ?e1 "[]" "Request ''/leak''" "''/leak''" fresh_response "[?e1, ?e2]"]
  note step = t [THEN conjunct2, THEN conjunct2, THEN conjunct1, THEN mp, OF h1]
  note grow = t [THEN conjunct2, THEN conjunct2, THEN conjunct2, THEN conjunct2, THEN conjunct2,
                 THEN mp, OF h2]
  from step have a: "Map_size (leak_step ?e1 (Request ''/leak'') []) \<le>
      Map_size ([] :: (int, leak_data) jsmap) + 1"
    by (elim conjE)
  from grow have b: "Map_size (run_leaks [?e1, ?e2] []) = 2" by (simp only: len)
  from h1 a h2 b show ?thesis by (intro conjI)
qed

section \<open>The routed server's answers\<close>

lemma default_headers_content_type:
  "Map_get ''Content-Type'' (headers (default_headers res)) = Some ''application/json''"
  by (simp add: default_headers_def setHeader_def Map_get_set_other Map_get_set_same)

lemma route_Inr: "\<exists>r. route env url res = Inr r"
  by (simp add: route_def Let_def)

text \<open>
  C10: the handler answers every request. For the URLs \<open>/\<close>, \<open>/about\<close> and \<open>/api/status\<close>
  exactly, the status code is 200 and the body is a JSON object; for every other URL the
  status code is 404 and the body is the JSON object with the error field "Not Found". In
  every case \<open>res.end\<close> has been called and the content type is \<open>application/json\<close>.
\<close>

theorem C10_routed_responses:
  "(url \<in> {''/'', ''/about'', ''/api/status''} \<longrightarrow>
      statusCode (routed_handler env url res) = 200 \<and>
      has_json_body (routed_handler env url res)) \<and>
   (url \<notin> {''/'', ''/about'', ''/api/status''} \<longrightarrow>
      statusCode (routed_handler env url res) = 404 \<and>
      body (routed_handler env url res) =
        Some (JObj [(''error'', JStr ''Not Found''),
                    (''message'', JStr ''The requested resource was not found'')]) \<and>
      has_json_body (routed_handler env url res) \<and>
      response_field ''error'' (routed_handler env url res) = Some (JStr ''Not Found'')) \<and>
   ended (routed_handler env url res) \<and>
   Map_get ''Content-Type'' (headers (routed_handler env url res)) = Some ''application/json''"
proof -
  have hdr: "Map_get ''Content-Type'' (headers (routed_handler env url res)) =
      Some ''application/json''"
    using default_headers_content_type [of res]
    by (simp add: routed_handler_def route_def Let_def res_end_def)
  have rest: "(url \<in> {''/'', ''/about'', ''/api/status''} \<longrightarrow>
      statusCode (routed_handler env url res) = 200 \<and>
      has_json_body (routed_handler env url res)) \<and>
   (url \<notin> {''/'', ''/about'', ''/api/status''} \<longrightarrow>
      statusCode (routed_handler env url res) = 404 \<and>
      body (routed_handler env url res) =
        Some (JObj [(''error'', JStr ''Not Found''),
                    (''message'', JStr ''The requested resource was not found'')]) \<and>
      has_json_body (routed_handler env url res) \<and>
      response_field ''error'' (routed_handler env url res) = Some (JStr ''Not Found'')) \<and>
   ended (routed_handler env url res)"
    by (simp add: routed_handler_def route_def Let_def res_end_def has_json_body_def
        response_field_def json_field_def)
  from rest hdr show ?thesis by blast
qed

theorem C10_routed_responses_witness:
  "''/about'' \<in> {''/'', ''/about'', ''/api/status''} \<and>
   statusCode (routed_handler \<lparr>now_iso = ''t'', uptime = 1\<rparr> ''/about'' fresh_response) = 200 \<and>
   ''/about?x=1'' \<notin> {''/'', ''/about'', ''/api/status''} \<and>
   statusCode (routed_handler \<lparr>now_iso = ''t'', uptime = 1\<rparr> ''/about?x=1'' fresh_response) = 404 \<and>
   response_field ''error'' (routed_handler \<lparr>now_iso = ''t'', uptime = 1\<rparr> ''/about?x=1'' fresh_response)
     = Some (JStr ''Not Found'')"
proof -
  have h1: "''/about'' \<in> {''/'', ''/about'', ''/api/status''}" by simp
  have h2: "''/about?x=1'' \<notin> {''/'', ''/about'', ''/api/status''}" by simp
  from C10_routed_responses [of "''/about''" "\<lparr>now_iso = ''t'', uptime = 1\<rparr>" fresh_response]
       C10_routed_responses [of "''/about?x=1''" "\<lparr>now_iso = ''t'', uptime = 1\<rparr>" fresh_response]
       h1 h2
  show ?thesis by blast
qed

end
